theory Spec2Isabelle
  imports Main "HOL-Library.Sublist"
begin

section \<open>Data model of browse.go\<close>

text \<open>
  \<^verbatim>\<open>net.IP\<close> is a byte slice; the bytes are kept as natural numbers.  Go's \<^verbatim>\<open>int\<close> and
  \<^verbatim>\<open>time.Duration\<close> (an \<^verbatim>\<open>int64\<close> counting nanoseconds) are integers, with the 64-bit
  wrap-around written out where the scheduler computes with them.
\<close>

type_synonym IP = "nat list"

text \<open>The struct \<^verbatim>\<open>BrowseEntry\<close> (browse.go, lines 15-24).\<close>

record BrowseEntry =
  IPs :: "IP list"
  Host :: string
  Port :: int
  IfaceName :: string
  Name :: string
  Type :: string
  Domain :: string
  Text :: "string \<rightharpoonup> string"

text \<open>
  Modelled from the spec: the record type \<^verbatim>\<open>Service\<close> of the cache is declared outside
  browse.go.  It carries the fields that \<^verbatim>\<open>lookupType\<close> reads from \<^verbatim>\<open>srv\<close>: the
  identity (instance name, service type, domain), host, port, text attributes, the
  time-to-live, the absolute expiration instant (nanoseconds) and \<^verbatim>\<open>ifaceIPs\<close>, the
  addresses resolved per interface.  \<^verbatim>\<open>ifaceIPs\<close> is a Go map that the addition pass
  ranges over, so it is kept as the list of its (key, value) pairs in the order of that
  iteration.  The fields that \<^verbatim>\<open>BrowseEntry\<close> has too carry the prefix \<open>srv\<close>.
\<close>

record Service =
  srvName :: string
  srvType :: string
  srvDomain :: string
  srvHost :: string
  srvPort :: int
  srvText :: "string \<rightharpoonup> string"
  TTL :: int
  expiration :: int
  ifaceIPs :: "(string \<times> IP list) list"

text \<open>\<^verbatim>\<open>BrowseEntry.ServiceInstanceName\<close> (lines 74-76): \<^verbatim>\<open>"%s.%s.%s."\<close> of name, type, domain.\<close>

definition ServiceInstanceName :: "BrowseEntry \<Rightarrow> string" where
  "ServiceInstanceName e = Name e @ ''.'' @ Type e @ ''.'' @ Domain e @ ''.''"

text \<open>
  Modelled from the spec: the accessors \<^verbatim>\<open>Service.ServiceInstanceName\<close> and
  \<^verbatim>\<open>Service.ServiceName\<close> are declared outside browse.go.  The first is the record's
  fully-qualified instance name, in the same form
  \<^verbatim>\<open><instance name>.<service>.<domain>.\<close> as the entry's; the second is the record's
  service type as it is compared with the browsed one, \<^verbatim>\<open><service>.<domain>.\<close>
\<close>

definition srvServiceInstanceName :: "Service \<Rightarrow> string" where
  "srvServiceInstanceName s = srvName s @ ''.'' @ srvType s @ ''.'' @ srvDomain s @ ''.''"

definition srvServiceName :: "Service \<Rightarrow> string" where
  "srvServiceName s = srvType s @ ''.'' @ srvDomain s @ ''.''"

section \<open>The entry reconciler (lines 161-208)\<close>

text \<open>The callbacks \<^verbatim>\<open>add\<close> and \<^verbatim>\<open>rmv\<close> are recorded as a trace, in the order of the calls.\<close>

datatype callback = Add BrowseEntry | Rmv BrowseEntry

text \<open>Lines 167-173: is there an announced entry with this name on this interface?\<close>

fun found_entry :: "BrowseEntry list \<Rightarrow> string \<Rightarrow> string \<Rightarrow> bool" where
  "found_entry [] n i = False"
| "found_entry (e # es) n i =
     (if Name e = n \<and> IfaceName e = i then True else found_entry es n i)"

text \<open>Lines 175-184: the entry built from a record and one of its interfaces.\<close>

definition new_entry :: "Service \<Rightarrow> string \<Rightarrow> IP list \<Rightarrow> BrowseEntry" where
  "new_entry srv ifaceName ips =
     \<lparr>IPs = ips, Host = srvHost srv, Port = srvPort srv, IfaceName = ifaceName,
      Name = srvName srv, Type = srvType srv, Domain = srvDomain srv, Text = srvText srv\<rparr>"

text \<open>
  Lines 166-188: the range over \<^verbatim>\<open>srv.ifaceIPs\<close>.  The state is the announced set
  \<^verbatim>\<open>es\<close> and the trace of callbacks; an appended entry is seen by the later scans.
\<close>

fun add_ifaces ::
  "Service \<Rightarrow> (string \<times> IP list) list \<Rightarrow> BrowseEntry list \<times> callback list
     \<Rightarrow> BrowseEntry list \<times> callback list" where
  "add_ifaces srv [] (es, tr) = (es, tr)"
| "add_ifaces srv ((ifaceName, ips) # rest) (es, tr) =
     (if \<not> found_entry es (srvName srv) ifaceName
      then add_ifaces srv rest
             (es @ [new_entry srv ifaceName ips], tr @ [Add (new_entry srv ifaceName ips)])
      else add_ifaces srv rest (es, tr))"

text \<open>Lines 161-189: the range over the snapshot \<^verbatim>\<open>cache.Services()\<close>.\<close>

fun add_pass ::
  "string \<Rightarrow> Service list \<Rightarrow> BrowseEntry list \<times> callback list
     \<Rightarrow> BrowseEntry list \<times> callback list" where
  "add_pass service [] st = st"
| "add_pass service (srv # rest) st =
     (if srvServiceName srv \<noteq> service then add_pass service rest st
      else add_pass service rest (add_ifaces srv (ifaceIPs srv) st))"

text \<open>Lines 193-199: does a record of the snapshot have the entry's instance name?\<close>

fun found_srv :: "Service list \<Rightarrow> BrowseEntry \<Rightarrow> bool" where
  "found_srv [] e = False"
| "found_srv (srv # rest) e =
     (if srvServiceInstanceName srv = ServiceInstanceName e then True else found_srv rest e)"

text \<open>Lines 191-207: the range over \<^verbatim>\<open>es\<close> that fills \<^verbatim>\<open>tmp\<close> and calls \<^verbatim>\<open>rmv\<close>.\<close>

fun rmv_pass ::
  "Service list \<Rightarrow> BrowseEntry list \<Rightarrow> BrowseEntry list \<times> callback list
     \<Rightarrow> BrowseEntry list \<times> callback list" where
  "rmv_pass snap [] (tmp, tr) = (tmp, tr)"
| "rmv_pass snap (e # es) (tmp, tr) =
     (if found_srv snap e then rmv_pass snap es (tmp @ [e], tr)
      else rmv_pass snap es (tmp, tr @ [Rmv e]))"

text \<open>
  Lines 161-208 as a whole: addition pass, then removal pass over the grown \<^verbatim>\<open>es\<close>,
  then \<^verbatim>\<open>es = tmp\<close>.  Both passes read the same snapshot.
\<close>

definition reconcile ::
  "string \<Rightarrow> Service list \<Rightarrow> BrowseEntry list \<Rightarrow> BrowseEntry list \<times> callback list" where
  "reconcile service snap es =
     (case add_pass service snap (es, []) of
        (es1, tr1) \<Rightarrow> rmv_pass snap es1 ([], tr1))"

text \<open>Projections of a trace, and the key that the addition pass compares.\<close>

fun added :: "callback list \<Rightarrow> BrowseEntry list" where
  "added [] = []"
| "added (Add e # tr) = e # added tr"
| "added (Rmv e # tr) = added tr"

fun removed :: "callback list \<Rightarrow> BrowseEntry list" where
  "removed [] = []"
| "removed (Add e # tr) = removed tr"
| "removed (Rmv e # tr) = e # removed tr"

definition entry_key :: "BrowseEntry \<Rightarrow> string \<times> string" where
  "entry_key e = (Name e, IfaceName e)"

text \<open>The service name of an entry, \<^verbatim>\<open><service>.<domain>.\<close>, the tail of its instance name.\<close>

definition entry_service :: "BrowseEntry \<Rightarrow> string" where
  "entry_service e = Type e @ ''.'' @ Domain e @ ''.''"

text \<open>
  The (instance name, interface) pairs that a snapshot offers for the browsed service:
  one for every record whose service name is \<open>service\<close> and every interface for
  which that record has addresses, that is, every key of its \<^verbatim>\<open>ifaceIPs\<close>.
\<close>

definition offered :: "string \<Rightarrow> Service list \<Rightarrow> (string \<times> string) list" where
  "offered service snap =
     concat (map (\<lambda>srv. map (\<lambda>p. (srvName srv, fst p)) (ifaceIPs srv))
                 (filter (\<lambda>srv. srvServiceName srv = service) snap))"

text \<open>
  The entries that the two loops of the addition pass append, as lists; they serve to
  state what \<open>add_ifaces\<close> and \<open>add_pass\<close> compute.
\<close>

fun new_ifaces :: "Service \<Rightarrow> (string \<times> IP list) list \<Rightarrow> BrowseEntry list \<Rightarrow> BrowseEntry list" where
  "new_ifaces srv [] es = []"
| "new_ifaces srv ((i, ips) # rest) es =
     (if found_entry es (srvName srv) i then new_ifaces srv rest es
      else new_entry srv i ips # new_ifaces srv rest (es @ [new_entry srv i ips]))"

fun new_entries :: "string \<Rightarrow> Service list \<Rightarrow> BrowseEntry list \<Rightarrow> BrowseEntry list" where
  "new_entries service [] es = []"
| "new_entries service (srv # rest) es =
     (if srvServiceName srv \<noteq> service then new_entries service rest es
      else new_ifaces srv (ifaceIPs srv) es
           @ new_entries service rest (es @ new_ifaces srv (ifaceIPs srv) es))"

section \<open>Durations\<close>

text \<open>
  \<^verbatim>\<open>time.Duration\<close> is an \<^verbatim>\<open>int64\<close> of nanoseconds.  \<open>wrap64\<close> is the two's-complement
  wrap-around of 64-bit arithmetic; \<open>shl64\<close> is Go's \<^verbatim>\<open><<\<close> on an \<^verbatim>\<open>int64\<close> with a
  non-negative count (a count of 64 or more gives 0); \<open>quot\<close> is Go's \<^verbatim>\<open>/\<close>, which
  truncates towards zero.
\<close>

definition Millisecond :: int where "Millisecond = 1000000"
definition Second :: int where "Second = 1000000000"
definition Hour :: int where "Hour = 3600 * Second"

definition wrap64 :: "int \<Rightarrow> int" where
  "wrap64 x = signed_take_bit 63 x"

definition shl64 :: "int \<Rightarrow> nat \<Rightarrow> int" where
  "shl64 x n = wrap64 (x * 2 ^ n)"

definition quot :: "int \<Rightarrow> int \<Rightarrow> int" where
  "quot a b = (if (a < 0) = (b < 0) then \<bar>a\<bar> div \<bar>b\<bar> else - (\<bar>a\<bar> div \<bar>b\<bar>))"

text \<open>
  \<^verbatim>\<open>time.Until(t)\<close> is \<^verbatim>\<open>t.Sub(time.Now())\<close>; instants are nanosecond counts, and
  \<^verbatim>\<open>Sub\<close> returns the largest or smallest duration where the difference does not fit.
\<close>

definition Until :: "int \<Rightarrow> int \<Rightarrow> int" where
  "Until t now = max (- (2 ^ 63)) (min (2 ^ 63 - 1) (t - now))"

section \<open>The known-answer filter (lines 143-152)\<close>

text \<open>
  \<^verbatim>\<open>PTR\<close>, which builds the resource record of a service, is declared outside browse.go
  and is a parameter.  Line 149 reads the clock anew for every record: \<open>now i\<close> is the
  reading of the clock when the loop is at the record at position \<open>i\<close> of the snapshot
  that is still to scan, so the rest of the snapshot is scanned with the readings shifted
  by one.
\<close>

fun known_answers ::
  "(Service \<Rightarrow> 'rr) \<Rightarrow> string \<Rightarrow> (nat \<Rightarrow> int) \<Rightarrow> Service list \<Rightarrow> 'rr list \<Rightarrow> 'rr list" where
  "known_answers PTR service now [] answer = answer"
| "known_answers PTR service now (srv # rest) answer =
     (if srvServiceName srv \<noteq> service
      then known_answers PTR service (\<lambda>i. now (Suc i)) rest answer
      else if Until (expiration srv) (now 0) > quot (TTL srv) 2
      then known_answers PTR service (\<lambda>i. now (Suc i)) rest (answer @ [PTR srv])
      else known_answers PTR service (\<lambda>i. now (Suc i)) rest answer)"

text \<open>
  The test of lines 145-149 on the record at position \<open>i\<close> of the snapshot, and the
  records of a snapshot that pass it, each with its position.
\<close>

definition fresh :: "string \<Rightarrow> (nat \<Rightarrow> int) \<Rightarrow> nat \<times> Service \<Rightarrow> bool" where
  "fresh service now p =
     (srvServiceName (snd p) = service
      \<and> quot (TTL (snd p)) 2 < Until (expiration (snd p)) (now (fst p)))"

definition known :: "string \<Rightarrow> (nat \<Rightarrow> int) \<Rightarrow> Service list \<Rightarrow> Service list" where
  "known service now snap = map snd (filter (fresh service now) (enumerate 0 snap))"

section \<open>The select loop of lookupType (lines 137-212)\<close>

text \<open>
  \<^verbatim>\<open>dns.Msg\<close> with the two sections the loop touches.  A question is (name, type, class);
  \<^verbatim>\<open>dns.TypePTR\<close> is 12 and \<^verbatim>\<open>dns.ClassINET\<close> is 1.
\<close>

record 'rr Msg =
  Question :: "(string \<times> nat \<times> nat) list"
  Answer :: "'rr list"

record ('rr, 'i) Query =
  msg :: "'rr Msg"
  iface :: 'i

text \<open>Lines 81-88: the question message \<^verbatim>\<open>m\<close>.\<close>

definition question_msg :: "string \<Rightarrow> 'rr Msg" where
  "question_msg service = \<lparr>Question = [(service, 12, 1)], Answer = []\<rparr>"

text \<open>
  The collaborators declared outside browse.go: the cache with \<^verbatim>\<open>UpdateFrom\<close> and
  \<^verbatim>\<open>Services\<close>, and \<^verbatim>\<open>PTR\<close>.  The cache is a value of any type \<open>'c\<close>.
\<close>

record ('c, 'req, 'rr) collab =
  UpdateFrom :: "'c \<Rightarrow> 'req \<Rightarrow> 'c"
  Services :: "'c \<Rightarrow> Service list"
  PTR :: "Service \<Rightarrow> 'rr"

text \<open>
  What one round of the \<^verbatim>\<open>select\<close> receives: a query from \<^verbatim>\<open>qs\<close>, with the readings of
  the clock and what \<^verbatim>\<open>conn.SendQuery\<close> will return for it (\<open>None\<close> is \<^verbatim>\<open>nil\<close>); a
  request from \<^verbatim>\<open>ch\<close>; or \<^verbatim>\<open>ctx.Done()\<close>, with the value of \<^verbatim>\<open>ctx.Err()\<close>.
\<close>

datatype ('rr, 'i, 'req, 'err) event =
  Trigger "('rr, 'i) Query" "nat \<Rightarrow> int" "'err option"
| Inbound 'req
| Done 'err

text \<open>What the loop does to the outside: log lines, the query handed to the transport, callbacks.\<close>

datatype ('rr, 'i, 'req, 'err) effect =
  LogSend "('rr, 'i) Query"
| SendQuery "('rr, 'i) Query"
| LogSendQueryErr 'err
| LogReceive 'req
| Callback callback

datatype ('s, 'f, 'err) outcome = Continue 's "'f list" | Return 'err

text \<open>Lines 153-156: the logging of a failed send.\<close>

fun log_send_error :: "'err option \<Rightarrow> ('rr, 'i, 'req, 'err) effect list" where
  "log_send_error None = []"
| "log_send_error (Some err) = [LogSendQueryErr err]"

text \<open>One round of the \<^verbatim>\<open>select\<close> (lines 139-211) on the state (cache, \<^verbatim>\<open>es\<close>).\<close>

fun select_round ::
  "('c, 'req, 'rr) collab \<Rightarrow> string \<Rightarrow> 'c \<times> BrowseEntry list \<Rightarrow> ('rr, 'i, 'req, 'err) event
     \<Rightarrow> ('c \<times> BrowseEntry list, ('rr, 'i, 'req, 'err) effect, 'err) outcome" where
  "select_round K service (cache, es) (Trigger q now r) =
     Continue (cache, es)
       ([LogSend q,
         SendQuery (q\<lparr>msg := (msg q)\<lparr>Answer := known_answers (PTR K) service now (Services K cache) []\<rparr>\<rparr>)]
        @ log_send_error r)"
| "select_round K service (cache, es) (Inbound req) =
     (case reconcile service (Services K (UpdateFrom K cache req)) es of
        (es', tr) \<Rightarrow> Continue (UpdateFrom K cache req, es') (LogReceive req # map Callback tr))"
| "select_round K service (cache, es) (Done err) = Return err"

text \<open>
  The \<^verbatim>\<open>for\<close> loop around the \<^verbatim>\<open>select\<close>, run on the events in the order the
  \<^verbatim>\<open>select\<close> takes them.  The result is the returned error (\<open>None\<close> while the loop is still
  waiting), the state, and the effects so far.
\<close>

fun lookupType_loop ::
  "('c, 'req, 'rr) collab \<Rightarrow> string \<Rightarrow> 'c \<times> BrowseEntry list \<Rightarrow> ('rr, 'i, 'req, 'err) event list
     \<Rightarrow> 'err option \<times> ('c \<times> BrowseEntry list) \<times> ('rr, 'i, 'req, 'err) effect list" where
  "lookupType_loop K service st [] = (None, st, [])"
| "lookupType_loop K service st (ev # evs) =
     (case select_round K service st ev of
        Return err \<Rightarrow> (Some err, st, [])
      | Continue st' fs \<Rightarrow>
          (case lookupType_loop K service st' evs of (r, st'', fs') \<Rightarrow> (r, st'', fs @ fs')))"

fun is_Done :: "('rr, 'i, 'req, 'err) event \<Rightarrow> bool" where
  "is_Done (Done err) = True"
| "is_Done ev = False"

text \<open>The announced set after a run, and the callbacks among its effects.\<close>

definition announced ::
  "'err option \<times> ('c \<times> BrowseEntry list) \<times> ('rr, 'i, 'req, 'err) effect list \<Rightarrow> BrowseEntry list" where
  "announced res = snd (fst (snd res))"

fun callbacks :: "('rr, 'i, 'req, 'err) effect list \<Rightarrow> callback list" where
  "callbacks [] = []"
| "callbacks (Callback c # fs) = c # callbacks fs"
| "callbacks (f # fs) = callbacks fs"

section \<open>The query scheduler (lines 96-135)\<close>

text \<open>
  Line 106: the jitter, from the value \<open>r\<close> that \<^verbatim>\<open>rand.Intn(100)\<close> returns.  The standard
  library's \<^verbatim>\<open>rand.Intn(n)\<close> returns an \<^verbatim>\<open>int\<close> of the half-open interval \<open>[0, n)\<close>.
\<close>

definition Intn :: "int \<Rightarrow> int set" where
  "Intn n = {0..<n}"

definition jitter :: "int \<Rightarrow> int" where
  "jitter r = wrap64 (wrap64 (r + 20) * Millisecond)"

text \<open>
  Lines 114-122: the interval after a tick, from \<^verbatim>\<open>counter\<close> and the interval so far.
  A shift by a negative count panics (\<open>None\<close>).
\<close>

definition backoff :: "int \<Rightarrow> int \<Rightarrow> int option" where
  "backoff counter interval =
     (if interval < Hour then
        (if counter < 0 then None
         else let iv = wrap64 (shl64 1 (nat counter) * Second)
              in if iv \<ge> Hour \<or> iv < 0 then Some Hour else Some iv)
      else Some interval)"

text \<open>
  The goroutine as a state machine.  It is in \<^verbatim>\<open>time.Sleep\<close> (line 106); or blocked in
  \<^verbatim>\<open>qs <- q\<close> (line 101) for the first of the interfaces still to serve, inside
  \<^verbatim>\<open>query()\<close>; or in the \<^verbatim>\<open>select\<close> of line 124 with \<^verbatim>\<open>counter\<close> and \<^verbatim>\<open>interval\<close>; or it
  has returned; or it has panicked.  While sending it remembers \<^verbatim>\<open>counter\<close> and
  \<^verbatim>\<open>interval\<close> in continuous mode and \<open>None\<close> in single-shot mode.
\<close>

datatype 'i sched =
  Sleeping
| Sending "'i list" "(int \<times> int) option"
| Waiting int int
| Exited
| Panicked

text \<open>
  What can wake the goroutine: the end of the sleep, the orchestrator receiving from
  \<^verbatim>\<open>qs\<close>, the timer of \<^verbatim>\<open>time.After\<close>, and \<^verbatim>\<open>ctx.Done()\<close>.  The two that lead into
  \<^verbatim>\<open>query()\<close> carry what \<^verbatim>\<open>MulticastInterfaces(ifaces...)\<close>, declared outside browse.go,
  returns there.
\<close>

datatype 'i wake = SleepOver "'i list" | Received | TimerFired "'i list" | CtxDone

text \<open>After \<^verbatim>\<open>query()\<close> has returned: line 134 falls off the end, lines 114-124 reach the select.\<close>

fun after_query :: "(int \<times> int) option \<Rightarrow> 'i sched" where
  "after_query None = Exited"
| "after_query (Some (counter, interval)) =
     (case backoff counter interval of
        None \<Rightarrow> Panicked
      | Some iv \<Rightarrow> Waiting counter iv)"

text \<open>Lines 98-102: the range over the interfaces still to serve.\<close>

fun query :: "'i list \<Rightarrow> (int \<times> int) option \<Rightarrow> 'i sched" where
  "query [] ls = after_query ls"
| "query (i # rest) ls = Sending (i # rest) ls"

text \<open>Line 100: the query for an interface, with a copy of the question message \<open>m\<close>.\<close>

definition mk_query :: "'rr Msg \<Rightarrow> 'i \<Rightarrow> ('rr, 'i) Query" where
  "mk_query m i = \<lparr>msg = m, iface = i\<rparr>"

text \<open>
  One wake-up.  The result is the next state and the queries handed over on \<^verbatim>\<open>qs\<close>.
  A wake-up that the goroutine is not waiting for leaves it where it is: \<^verbatim>\<open>time.Sleep\<close>
  and \<^verbatim>\<open>qs <- q\<close> do not listen to \<^verbatim>\<open>ctx.Done()\<close>.
\<close>

fun sched_step ::
  "bool \<Rightarrow> 'rr Msg \<Rightarrow> 'i sched \<Rightarrow> 'i wake \<Rightarrow> 'i sched \<times> ('rr, 'i) Query list" where
  "sched_step continuous m Sleeping (SleepOver mifs) =
     (query mifs (if continuous then Some (0, 0) else None), [])"
| "sched_step continuous m (Sending (i # rest) ls) Received =
     (query rest ls, [mk_query m i])"
| "sched_step continuous m (Waiting counter interval) (TimerFired mifs) =
     (query mifs (Some (wrap64 (counter + 1), interval)), [])"
| "sched_step continuous m (Waiting counter interval) CtxDone = (Exited, [])"
| "sched_step continuous m s w = (s, [])"

fun sched_run ::
  "bool \<Rightarrow> 'rr Msg \<Rightarrow> 'i sched \<Rightarrow> 'i wake list \<Rightarrow> 'i sched \<times> ('rr, 'i) Query list" where
  "sched_run continuous m s [] = (s, [])"
| "sched_run continuous m s (w # ws) =
     (case sched_step continuous m s w of
        (s', qs) \<Rightarrow> (case sched_run continuous m s' ws of (s'', qs') \<Rightarrow> (s'', qs @ qs')))"

text \<open>
  The wake-ups that serve one tick in full; those of further rounds, each begun by the
  timer of the wait before it; and the interfaces that the first tick of a run finds.
\<close>

definition tick :: "'i list \<Rightarrow> 'i wake list" where
  "tick mifs = replicate (length mifs) Received"

fun rounds :: "'i list list \<Rightarrow> 'i wake list" where
  "rounds [] = []"
| "rounds (mifs # ms) = TimerFired mifs # tick mifs @ rounds ms"

fun enumerated :: "'i wake list \<Rightarrow> 'i list" where
  "enumerated [] = []"
| "enumerated (SleepOver mifs # ws) = mifs"
| "enumerated (w # ws) = enumerated ws"

text \<open>How many of the wake-ups are the orchestrator receiving from \<^verbatim>\<open>qs\<close>.\<close>

definition received :: "'i wake list \<Rightarrow> nat" where
  "received ws = length (filter (\<lambda>w. w = Received) ws)"

fun delay :: "'i sched \<Rightarrow> int option" where
  "delay (Waiting counter interval) = Some interval"
| "delay s = None"

text \<open>
  \<^verbatim>\<open>counter\<close> and \<^verbatim>\<open>interval\<close> after \<open>n\<close> rounds of the loop of lines 111-131 that ended
  with the timer, as closed forms to state what the loop computes.
\<close>

fun counter_after :: "nat \<Rightarrow> int" where
  "counter_after 0 = 0"
| "counter_after (Suc n) = wrap64 (counter_after n + 1)"

fun interval_after :: "nat \<Rightarrow> int" where
  "interval_after 0 = 0"
| "interval_after (Suc n) = min (2 ^ n) 3600 * Second"

section \<open>Test data\<close>

text \<open>A record, the same record after its host, port and address changed, an entry of
  another instance, a query, and a cache whose snapshot is the last request.\<close>

definition ex_foo :: Service where
  "ex_foo = \<lparr>srvName = ''foo'', srvType = ''_http._tcp'', srvDomain = ''local'',
     srvHost = ''foo.local.'', srvPort = 80, srvText = Map.empty, TTL = 100 * Second,
     expiration = 160 * Second, ifaceIPs = [(''en0'', [[192, 168, 0, 2]])]\<rparr>"

definition ex_foo_moved :: Service where
  "ex_foo_moved = ex_foo\<lparr>srvHost := ''foo-2.local.'', srvPort := 8080,
     ifaceIPs := [(''en0'', [[10, 0, 0, 7]])]\<rparr>"

definition ex_foo_entry :: BrowseEntry where
  "ex_foo_entry = new_entry ex_foo ''en0'' [[192, 168, 0, 2]]"

definition ex_bar :: BrowseEntry where
  "ex_bar = \<lparr>IPs = [[192, 168, 0, 3]], Host = ''bar.local.'', Port = 80, IfaceName = ''en0'',
     Name = ''bar'', Type = ''_http._tcp'', Domain = ''local'', Text = Map.empty\<rparr>"

definition ex_q :: "(string, string) Query" where
  "ex_q = mk_query (question_msg ''_http._tcp.local.'') ''en0''"

definition ex_K :: "(Service list, Service list, string) collab" where
  "ex_K = \<lparr>UpdateFrom = (\<lambda>cache req. req), Services = (\<lambda>cache. cache),
     PTR = srvServiceInstanceName\<rparr>"


section \<open>Properties of the reconciler\<close>

lemma found_entry_iff: "found_entry es n i \<longleftrightarrow> (n, i) \<in> entry_key ` set es"
  by (induction es) (auto simp: entry_key_def)

lemma found_srv_iff:
  "found_srv snap e \<longleftrightarrow> ServiceInstanceName e \<in> srvServiceInstanceName ` set snap"
  by (induction snap) auto

lemma rmv_pass_eq:
  "rmv_pass snap es (tmp, tr) =
     (tmp @ filter (found_srv snap) es, tr @ map Rmv (filter (\<lambda>e. \<not> found_srv snap e) es))"
  by (induction es arbitrary: tmp tr) auto

lemma add_ifaces_eq:
  "add_ifaces srv ifs (es, tr) = (es @ new_ifaces srv ifs es, tr @ map Add (new_ifaces srv ifs es))"
  by (induction ifs arbitrary: es tr) auto

lemma new_entry_key [simp]: "entry_key (new_entry srv i ips) = (srvName srv, i)"
  by (simp add: entry_key_def new_entry_def)

lemma new_ifaces_keys:
  "entry_key ` set (new_ifaces srv ifs es) = Pair (srvName srv) ` fst ` set ifs - entry_key ` set es"
proof (induction ifs arbitrary: es)
  case Nil
  then show ?case by simp
next
  case (Cons p rest)
  obtain i ips where p: "p = (i, ips)" by (cases p)
  show ?case
  proof (cases "found_entry es (srvName srv) i")
    case True
    then have "(srvName srv, i) \<in> entry_key ` set es" by (simp add: found_entry_iff)
    with True p Cons.IH [of es] show ?thesis by auto
  next
    case False
    then have "(srvName srv, i) \<notin> entry_key ` set es" by (simp add: found_entry_iff)
    with False p Cons.IH [of "es @ [new_entry srv i ips]"] show ?thesis by auto
  qed
qed

lemma new_ifaces_distinct:
  "distinct (map entry_key (new_ifaces srv ifs es))"
proof (induction ifs arbitrary: es)
  case Nil
  then show ?case by simp
next
  case (Cons p rest)
  obtain i ips where p: "p = (i, ips)" by (cases p)
  have "(srvName srv, i) \<notin> entry_key ` set (new_ifaces srv rest (es @ [new_entry srv i ips]))"
    by (simp add: new_ifaces_keys)
  with p Cons.IH show ?case by simp
qed

lemma new_ifaces_from:
  "a \<in> set (new_ifaces srv ifs es) \<Longrightarrow> \<exists>ips. (IfaceName a, ips) \<in> set ifs \<and> a = new_entry srv (IfaceName a) ips"
proof (induction ifs arbitrary: es)
  case Nil
  then show ?case by simp
next
  case (Cons p rest)
  obtain i ips where p: "p = (i, ips)" by (cases p)
  show ?case
  proof (cases "a = new_entry srv i ips \<and> \<not> found_entry es (srvName srv) i")
    case True
    then have "IfaceName a = i" by (simp add: new_entry_def)
    with True p show ?thesis by auto
  next
    case False
    with Cons.prems p have "a \<in> set (new_ifaces srv rest es)
        \<or> a \<in> set (new_ifaces srv rest (es @ [new_entry srv i ips]))"
      by (auto split: if_splits)
    with Cons.IH obtain ips' where "(IfaceName a, ips') \<in> set rest"
        and "a = new_entry srv (IfaceName a) ips'"
      by blast
    then show ?thesis by auto
  qed
qed

lemma add_pass_eq:
  "add_pass service snap (es, tr) =
     (es @ new_entries service snap es, tr @ map Add (new_entries service snap es))"
  by (induction snap arbitrary: es tr) (auto simp: add_ifaces_eq)

lemma offered_Nil [simp]: "offered service [] = []"
  by (simp add: offered_def)

lemma offered_Cons:
  "set (offered service (srv # rest)) =
     (if srvServiceName srv = service then Pair (srvName srv) ` fst ` set (ifaceIPs srv) else {})
     \<union> set (offered service rest)"
  by (auto simp: offered_def)

lemma new_entries_keys:
  "entry_key ` set (new_entries service snap es) = set (offered service snap) - entry_key ` set es"
proof (induction snap arbitrary: es)
  case Nil
  then show ?case by simp
next
  case (Cons srv rest)
  show ?case
  proof (cases "srvServiceName srv = service")
    case False
    with Cons.IH [of es] show ?thesis by (simp add: offered_Cons)
  next
    case True
    let ?new = "new_ifaces srv (ifaceIPs srv) es"
    have "entry_key ` set (new_entries service (srv # rest) es)
        = entry_key ` set ?new \<union> entry_key ` set (new_entries service rest (es @ ?new))"
      using True by (simp add: image_Un)
    also have "\<dots> = (Pair (srvName srv) ` fst ` set (ifaceIPs srv) - entry_key ` set es)
        \<union> (set (offered service rest) - (entry_key ` set es \<union> entry_key ` set ?new))"
      by (simp add: Cons.IH new_ifaces_keys image_Un)
    also have "\<dots> = set (offered service (srv # rest)) - entry_key ` set es"
      using True by (auto simp: offered_Cons new_ifaces_keys)
    finally show ?thesis .
  qed
qed

lemma new_entries_distinct:
  "distinct (map entry_key (new_entries service snap es))"
proof (induction snap arbitrary: es)
  case Nil
  then show ?case by simp
next
  case (Cons srv rest)
  let ?new = "new_ifaces srv (ifaceIPs srv) es"
  have "entry_key ` set ?new \<inter> entry_key ` set (new_entries service rest (es @ ?new)) = {}"
    by (auto simp: new_entries_keys)
  with Cons.IH show ?case by (simp add: new_ifaces_distinct)
qed

lemma new_entries_from:
  "a \<in> set (new_entries service snap es) \<Longrightarrow>
     \<exists>srv\<in>set snap. \<exists>ips. srvServiceName srv = service \<and> (IfaceName a, ips) \<in> set (ifaceIPs srv)
        \<and> a = new_entry srv (IfaceName a) ips"
  by (induction snap arbitrary: es) (auto dest: new_ifaces_from split: if_splits)


lemma new_entry_instance_name:
  "ServiceInstanceName (new_entry srv i ips) = srvServiceInstanceName srv"
  by (simp add: ServiceInstanceName_def srvServiceInstanceName_def new_entry_def)

lemma new_entries_found:
  assumes "a \<in> set (new_entries service snap es)"
  shows "found_srv snap a"
proof -
  from new_entries_from [OF assms] obtain srv ips where
    "srv \<in> set snap" and "a = new_entry srv (IfaceName a) ips"
    by blast
  then have "ServiceInstanceName a = srvServiceInstanceName srv"
    by (metis new_entry_instance_name)
  with \<open>srv \<in> set snap\<close> show ?thesis
    by (auto simp: found_srv_iff)
qed

lemma reconcile_eq:
  "reconcile service snap es =
     (filter (found_srv snap) es @ new_entries service snap es,
      map Add (new_entries service snap es) @ map Rmv (filter (\<lambda>e. \<not> found_srv snap e) es))"
proof -
  have "filter (found_srv snap) (new_entries service snap es) = new_entries service snap es"
    by (simp add: new_entries_found)
  moreover have "filter (\<lambda>e. \<not> found_srv snap e) (new_entries service snap es) = []"
    by (simp add: new_entries_found)
  ultimately show ?thesis
    by (simp add: reconcile_def add_pass_eq rmv_pass_eq)
qed

lemma added_append: "added (map Add xs @ map Rmv ys) = xs"
  by (induction xs) (simp_all, induction ys, simp_all)

lemma removed_append: "removed (map Add xs @ map Rmv ys) = ys"
  by (induction xs) (simp_all, induction ys, simp_all)

lemma reconcile_distinct:
  assumes "distinct (map entry_key es)"
  shows "distinct (map entry_key (fst (reconcile service snap es)))"
proof -
  have "entry_key ` set (filter (found_srv snap) es) \<inter> entry_key ` set (new_entries service snap es) = {}"
    by (auto simp: new_entries_keys)
  moreover have "distinct (map entry_key (filter (found_srv snap) es))"
    using assms by (simp add: distinct_map_filter)
  ultimately show ?thesis
    by (simp add: reconcile_eq new_entries_distinct)
qed

lemma announced_simp [simp]: "announced (r, (c, es), fs) = es"
  by (simp add: announced_def)

lemma callbacks_map [simp]: "callbacks (map Callback tr) = tr"
  by (induction tr) simp_all

lemma announced_loop_Cons:
  "announced (lookupType_loop K service st (ev # evs)) =
     (case select_round K service st ev of
        Return err \<Rightarrow> snd st
      | Continue st' fs \<Rightarrow> announced (lookupType_loop K service st' evs))"
  by (simp add: announced_def split: outcome.splits prod.splits)

lemma loop_distinct:
  "distinct (map entry_key es) \<Longrightarrow>
     distinct (map entry_key (announced (lookupType_loop K service (cache, es) evs)))"
proof (induction evs arbitrary: cache es)
  case Nil
  then show ?case by simp
next
  case (Cons ev evs)
  show ?case
  proof (cases ev)
    case (Trigger q now r)
    with Cons.IH [OF Cons.prems, of cache] show ?thesis
      by (simp only: announced_loop_Cons select_round.simps outcome.case)
  next
    case (Inbound req)
    let ?snap = "Services K (UpdateFrom K cache req)"
    obtain es' tr where rec: "reconcile service ?snap es = (es', tr)"
      by (cases "reconcile service ?snap es")
    with reconcile_distinct [OF Cons.prems, of service ?snap]
    have "distinct (map entry_key es')" by simp
    from Cons.IH [OF this, of "UpdateFrom K cache req"] Inbound rec show ?thesis
      by (simp only: announced_loop_Cons select_round.simps outcome.case prod.case)
  next
    case (Done err)
    with Cons.prems show ?thesis
      by (simp only: announced_loop_Cons select_round.simps outcome.case snd_conv)
  qed
qed


subsection \<open>The test data evaluated\<close>

lemma ex_foo_name: "srvServiceName ex_foo = ''_http._tcp.local.''" "srvName ex_foo = ''foo''"
   "ifaceIPs ex_foo = [(''en0'', [[192, 168, 0, 2]])]"
  by (simp_all add: ex_foo_def srvServiceName_def)

lemma ex_foo_moved_name: "srvServiceName ex_foo_moved = ''_http._tcp.local.''"
   "srvName ex_foo_moved = ''foo''" "ifaceIPs ex_foo_moved = [(''en0'', [[10, 0, 0, 7]])]"
   "srvServiceInstanceName ex_foo_moved = srvServiceInstanceName ex_foo"
  by (simp_all add: ex_foo_moved_def ex_foo_def srvServiceName_def srvServiceInstanceName_def)

lemma ex_foo_entry_key: "Name ex_foo_entry = ''foo''" "IfaceName ex_foo_entry = ''en0''"
  "ServiceInstanceName ex_foo_entry = srvServiceInstanceName ex_foo"
  by (simp_all add: ex_foo_entry_def new_entry_instance_name) (simp_all add: new_entry_def ex_foo_def)

lemma ex_bar_key: "Name ex_bar = ''bar''" "IfaceName ex_bar = ''en0''"
  "ServiceInstanceName ex_bar \<noteq> srvServiceInstanceName ex_foo"
  "srvServiceInstanceName ex_foo \<noteq> ServiceInstanceName ex_bar"
  by (simp_all add: ex_bar_def ex_foo_def ServiceInstanceName_def srvServiceInstanceName_def)

lemma ex_K_sel: "UpdateFrom ex_K c req = req" "Services ex_K c = c"
  "PTR ex_K = srvServiceInstanceName"
  by (simp_all add: ex_K_def)

lemma ex_reconcile_foo:
  "reconcile ''_http._tcp.local.'' [ex_foo] [ex_bar] = ([ex_foo_entry], [Add ex_foo_entry, Rmv ex_bar])"
  by (simp add: reconcile_def ex_foo_name ex_bar_key ex_foo_entry_key ex_foo_entry_def [symmetric])

lemma ex_reconcile_first:
  "reconcile ''_http._tcp.local.'' [ex_foo] [] = ([ex_foo_entry], [Add ex_foo_entry])"
  by (simp add: reconcile_def ex_foo_name ex_foo_entry_key ex_foo_entry_def [symmetric])

lemma ex_reconcile_moved:
  "reconcile ''_http._tcp.local.'' [ex_foo_moved] [ex_foo_entry] = ([ex_foo_entry], [])"
  by (simp add: reconcile_def ex_foo_moved_name ex_foo_entry_key)


subsection \<open>What one reconciliation computes\<close>

lemma reconcile_diff:
  assumes "reconcile service snap es = (es', tr)"
  shows "tr = map Add (added tr) @ map Rmv (removed tr)
    \<and> distinct (map entry_key (added tr))
    \<and> set (map entry_key (added tr)) = set (offered service snap) - set (map entry_key es)
    \<and> (\<forall>a\<in>set (added tr). \<exists>srv\<in>set snap. \<exists>ips.
          srvServiceName srv = service \<and> (IfaceName a, ips) \<in> set (ifaceIPs srv)
          \<and> a = new_entry srv (IfaceName a) ips)
    \<and> removed tr = filter (\<lambda>e. ServiceInstanceName e \<notin> set (map srvServiceInstanceName snap)) es
    \<and> es' = filter (\<lambda>e. ServiceInstanceName e \<in> set (map srvServiceInstanceName snap)) es @ added tr"
proof -
  let ?new = "new_entries service snap es"
  have f: "found_srv snap = (\<lambda>e. ServiceInstanceName e \<in> set (map srvServiceInstanceName snap))"
    by (rule ext) (simp add: found_srv_iff)
  from assms have tr: "tr = map Add ?new @ map Rmv (filter (\<lambda>e. \<not> found_srv snap e) es)"
    and es': "es' = filter (found_srv snap) es @ ?new"
    by (simp_all add: reconcile_eq)
  have a: "added tr = ?new" and r: "removed tr = filter (\<lambda>e. \<not> found_srv snap e) es"
    by (simp_all add: tr added_append removed_append)
  have 1: "tr = map Add (added tr) @ map Rmv (removed tr)"
    unfolding a r by (rule tr)
  have 2: "distinct (map entry_key (added tr))"
    by (simp add: a new_entries_distinct)
  have 3: "set (map entry_key (added tr)) = set (offered service snap) - set (map entry_key es)"
    by (simp add: a new_entries_keys)
  have 4: "\<forall>a\<in>set (added tr). \<exists>srv\<in>set snap. \<exists>ips.
          srvServiceName srv = service \<and> (IfaceName a, ips) \<in> set (ifaceIPs srv)
          \<and> a = new_entry srv (IfaceName a) ips"
    unfolding a by (blast dest: new_entries_from)
  have 5: "removed tr = filter (\<lambda>e. ServiceInstanceName e \<notin> set (map srvServiceInstanceName snap)) es"
    unfolding r f ..
  have 6: "es' = filter (\<lambda>e. ServiceInstanceName e \<in> set (map srvServiceInstanceName snap)) es @ added tr"
    unfolding a es' f ..
  from 1 2 3 4 5 6 show ?thesis by blast
qed

section \<open>Properties of the select loop\<close>

lemma new_entries_service:
  assumes "a \<in> set (new_entries service snap es)"
  shows "entry_service a = service"
proof -
  from new_entries_from [OF assms] obtain srv ips where
    "srvServiceName srv = service" and "a = new_entry srv (IfaceName a) ips"
    by blast
  then show ?thesis
    by (metis entry_service_def srvServiceName_def new_entry_def BrowseEntry.select_convs(6,7))
qed

lemma reconcile_service:
  assumes "\<forall>e\<in>set es. entry_service e = service"
  shows "\<forall>e\<in>set (fst (reconcile service snap es)). entry_service e = service"
  using assms by (auto simp: reconcile_eq new_entries_service)

lemma loop_service:
  "\<forall>e\<in>set es. entry_service e = service \<Longrightarrow>
     \<forall>e\<in>set (announced (lookupType_loop K service (cache, es) evs)). entry_service e = service"
proof (induction evs arbitrary: cache es)
  case Nil
  then show ?case by simp
next
  case (Cons ev evs)
  show ?case
  proof (cases ev)
    case (Trigger q now r)
    with Cons.IH [OF Cons.prems, of cache] show ?thesis
      by (simp only: announced_loop_Cons select_round.simps outcome.case)
  next
    case (Inbound req)
    let ?snap = "Services K (UpdateFrom K cache req)"
    obtain es' tr where rec: "reconcile service ?snap es = (es', tr)"
      by (cases "reconcile service ?snap es")
    with reconcile_service [OF Cons.prems, of ?snap]
    have "\<forall>e\<in>set es'. entry_service e = service" by simp
    from Cons.IH [OF this, of "UpdateFrom K cache req"] Inbound rec show ?thesis
      by (simp only: announced_loop_Cons select_round.simps outcome.case prod.case)
  next
    case (Done err)
    with Cons.prems show ?thesis
      by (simp only: announced_loop_Cons select_round.simps outcome.case snd_conv)
  qed
qed

lemma instance_name_split: "ServiceInstanceName e = Name e @ ''.'' @ entry_service e"
  by (simp add: ServiceInstanceName_def entry_service_def)

lemma srv_instance_name_split: "srvServiceInstanceName s = srvName s @ ''.'' @ srvServiceName s"
  by (simp add: srvServiceInstanceName_def srvServiceName_def)

lemma filter_key_single:
  "distinct (map f xs) \<Longrightarrow> e \<in> set xs \<Longrightarrow> filter (\<lambda>x. f x = f e) xs = [e]"
proof (induction xs)
  case Nil
  then show ?case by simp
next
  case (Cons x xs)
  show ?case
  proof (cases "x = e")
    case True
    with Cons.prems have "\<forall>y\<in>set xs. f y \<noteq> f e" by (fastforce simp: image_iff)
    then have "filter (\<lambda>x. f x = f e) xs = []" by (simp add: filter_empty_conv)
    with True show ?thesis by simp
  next
    case False
    with Cons.prems have "e \<in> set xs" by simp
    with Cons.prems have "f x \<noteq> f e" by auto
    with Cons \<open>e \<in> set xs\<close> show ?thesis by simp
  qed
qed

lemma callbacks_append: "callbacks (fs @ fs') = callbacks fs @ callbacks fs'"
  by (induction fs rule: callbacks.induct) simp_all

lemma loop_append:
  "lookupType_loop K service st (evs @ evs') =
     (case lookupType_loop K service st evs of
        (Some err, st', fs) \<Rightarrow> (Some err, st', fs)
      | (None, st', fs) \<Rightarrow>
          (case lookupType_loop K service st' evs' of (r, st'', fs') \<Rightarrow> (r, st'', fs @ fs')))"
proof (induction evs arbitrary: st)
  case Nil
  then show ?case by (simp add: split_beta)
next
  case (Cons ev evs)
  show ?case
  proof (cases "select_round K service st ev")
    case (Return err)
    then show ?thesis by simp
  next
    case (Continue st' fs)
    with Cons.IH [of st'] show ?thesis
      by (simp split: prod.splits option.splits)
  qed
qed

lemma loop_failed_send:
  "lookupType_loop K service (cache, es) (Trigger q now (Some err) # evs) =
     (case lookupType_loop K service (cache, es) evs of
        (r, st, fs) \<Rightarrow>
          (r, st,
           [LogSend q,
            SendQuery (q\<lparr>msg := (msg q)\<lparr>Answer :=
              known_answers (PTR K) service now (Services K cache) []\<rparr>\<rparr>),
            LogSendQueryErr err] @ fs))"
  by (simp add: split_beta)

subsection \<open>The test data in the loop\<close>

lemma ex_round_foo:
  "select_round ex_K ''_http._tcp.local.'' ([], [ex_bar])
       (Inbound [ex_foo] :: (string, string, Service list, string) event)
     = Continue ([ex_foo], [ex_foo_entry])
         [LogReceive [ex_foo], Callback (Add ex_foo_entry), Callback (Rmv ex_bar)]"
  by (simp add: ex_K_sel ex_reconcile_foo)

lemma ex_bar_distinct: "distinct (map entry_key [ex_bar])"
  by simp

lemma ex_loop_first:
  "lookupType_loop ex_K ''_http._tcp.local.'' ([], [])
       [Inbound [ex_foo] :: (string, string, Service list, string) event]
     = (None, ([ex_foo], [ex_foo_entry]), [LogReceive [ex_foo], Callback (Add ex_foo_entry)])"
  by (simp add: ex_K_sel ex_reconcile_first)

lemma ex_round_moved:
  "select_round ex_K ''_http._tcp.local.'' ([ex_foo], [ex_foo_entry])
       (Inbound [ex_foo_moved] :: (string, string, Service list, string) event)
     = Continue ([ex_foo_moved], [ex_foo_entry]) [LogReceive [ex_foo_moved]]"
  by (simp add: ex_K_sel ex_reconcile_moved)

lemma ex_moved_differs:
  "srvHost ex_foo_moved \<noteq> Host ex_foo_entry" "srvPort ex_foo_moved \<noteq> Port ex_foo_entry"
  "ifaceIPs ex_foo_moved \<noteq> [(''en0'', IPs ex_foo_entry)]"
  by (simp_all add: ex_foo_moved_def ex_foo_entry_def new_entry_def ex_foo_def)

lemma ex_not_done:
  "\<not> list_ex is_Done [Inbound [ex_foo] :: (string, string, Service list, string) event]"
  by simp

subsection \<open>Diff completeness\<close>

text \<open>
  C2.  One inbound message: the cache ingests it, and of the callbacks of the round, which
  are reconciled against the snapshot of the cache after that, the additions come first and the removals after them.  The additions carry
  pairwise different (instance name, interface) keys, and their keys are exactly the pairs
  that the snapshot offers for the browsed service and that no entry of the prior
  announced set has; every addition is the entry built from a matching record of the
  snapshot and one of its interfaces.  The removals are exactly the prior entries whose
  fully-qualified instance name belongs to no record of the snapshot, and the updated set
  is the prior entries that stay, followed by the additions.
\<close>

theorem inbound_diff_exact:
  assumes "select_round K service (cache, es) (Inbound req) = Continue (cache', es') fs"
  shows "cache' = UpdateFrom K cache req
    \<and> fs = LogReceive req # map Callback (callbacks fs)
    \<and> callbacks fs = map Add (added (callbacks fs)) @ map Rmv (removed (callbacks fs))
    \<and> distinct (map entry_key (added (callbacks fs)))
    \<and> set (map entry_key (added (callbacks fs)))
        = set (offered service (Services K cache')) - set (map entry_key es)
    \<and> (\<forall>a\<in>set (added (callbacks fs)). \<exists>srv\<in>set (Services K cache'). \<exists>ips.
          srvServiceName srv = service \<and> (IfaceName a, ips) \<in> set (ifaceIPs srv)
          \<and> a = new_entry srv (IfaceName a) ips)
    \<and> removed (callbacks fs)
        = filter (\<lambda>e. ServiceInstanceName e \<notin> set (map srvServiceInstanceName (Services K cache'))) es
    \<and> es' = filter (\<lambda>e. ServiceInstanceName e \<in> set (map srvServiceInstanceName (Services K cache'))) es
             @ added (callbacks fs)"
proof -
  obtain tr where rec: "reconcile service (Services K (UpdateFrom K cache req)) es = (es', tr)"
    and c: "cache' = UpdateFrom K cache req"
    and fs: "fs = LogReceive req # map Callback tr"
    using assms by (auto split: prod.splits)
  from fs have cb: "callbacks fs = tr" by simp
  from fs cb have 2: "fs = LogReceive req # map Callback (callbacks fs)" by simp
  from reconcile_diff [OF rec] c 2 show ?thesis
    unfolding cb c by blast
qed

theorem inbound_diff_exact_witness:
  "select_round ex_K ''_http._tcp.local.'' ([], [ex_bar])
       (Inbound [ex_foo] :: (string, string, Service list, string) event)
     = Continue ([ex_foo], [ex_foo_entry])
         [LogReceive [ex_foo], Callback (Add ex_foo_entry), Callback (Rmv ex_bar)]
   \<and> callbacks [LogReceive [ex_foo] :: (string, string, Service list, string) effect,
        Callback (Add ex_foo_entry), Callback (Rmv ex_bar)]
       = map Add [ex_foo_entry] @ map Rmv [ex_bar]
   \<and> set (map entry_key [ex_foo_entry])
       = set (offered ''_http._tcp.local.'' (Services ex_K [ex_foo])) - set (map entry_key [ex_bar])
   \<and> [ex_bar] = filter (\<lambda>e. ServiceInstanceName e
         \<notin> set (map srvServiceInstanceName (Services ex_K [ex_foo]))) [ex_bar]"
proof -
  note h = ex_round_foo
  have a: "added (callbacks [LogReceive [ex_foo] :: (string, string, Service list, string) effect,
      Callback (Add ex_foo_entry), Callback (Rmv ex_bar)]) = [ex_foo_entry]"
    and r: "removed (callbacks [LogReceive [ex_foo] :: (string, string, Service list, string) effect,
      Callback (Add ex_foo_entry), Callback (Rmv ex_bar)]) = [ex_bar]"
    by simp_all
  note c = inbound_diff_exact [OF h]
  note c3 = c [THEN conjunct2, THEN conjunct2, THEN conjunct1, unfolded a r]
  note c5 = c [THEN conjunct2, THEN conjunct2, THEN conjunct2, THEN conjunct2, THEN conjunct1, unfolded a]
  note c7 = c [THEN conjunct2, THEN conjunct2, THEN conjunct2, THEN conjunct2, THEN conjunct2,
      THEN conjunct2, THEN conjunct1, unfolded r]
  from h c3 c5 c7 show ?thesis by (intro conjI)
qed

subsection \<open>No duplicate announcements\<close>

text \<open>
  C1.  The announced set never holds two entries with the same (instance name, interface)
  pair: this is so after any sequence of events of a session, which starts from the empty
  set; one inbound message takes a set without such a pair to a set without one, the
  entries it adds having keys that no entry of the set before has; and the set is without
  such a pair also after the addition pass, before the removal pass shrinks it.
\<close>

theorem announced_set_dedup:
  "distinct (map entry_key (announced (lookupType_loop K service (cache0, []) evs)))
   \<and> (distinct (map entry_key es) \<longrightarrow>
        select_round K service (cache, es) (Inbound req) = Continue (cache', es') fs \<longrightarrow>
        distinct (map entry_key es')
        \<and> set (map entry_key (added (callbacks fs))) \<inter> set (map entry_key es) = {})
   \<and> (distinct (map entry_key es) \<longrightarrow>
        distinct (map entry_key (fst (add_pass service snap (es, tr)))))"
proof (intro conjI impI)
  show "distinct (map entry_key (announced (lookupType_loop K service (cache0, []) evs)))"
    by (rule loop_distinct) simp
next
  assume d: "distinct (map entry_key es)"
    and s: "select_round K service (cache, es) (Inbound req) = Continue (cache', es') fs"
  let ?snap = "Services K (UpdateFrom K cache req)"
  from s have es': "es' = fst (reconcile service ?snap es)"
    and fs: "fs = LogReceive req # map Callback (snd (reconcile service ?snap es))"
    by (auto split: prod.splits)
  from es' reconcile_distinct [OF d] show "distinct (map entry_key es')" by simp
  have "callbacks fs = snd (reconcile service ?snap es)"
    by (simp add: fs)
  then have "added (callbacks fs) = new_entries service ?snap es"
    by (simp only: reconcile_eq snd_conv added_append)
  then show "set (map entry_key (added (callbacks fs))) \<inter> set (map entry_key es) = {}"
    by (auto simp: new_entries_keys)
next
  assume "distinct (map entry_key es)"
  moreover have "entry_key ` set es \<inter> entry_key ` set (new_entries service snap es) = {}"
    by (auto simp: new_entries_keys)
  ultimately show "distinct (map entry_key (fst (add_pass service snap (es, tr))))"
    by (simp add: add_pass_eq new_entries_distinct)
qed

theorem announced_set_dedup_witness:
  "distinct (map entry_key [ex_bar])
   \<and> select_round ex_K ''_http._tcp.local.'' ([], [ex_bar])
         (Inbound [ex_foo] :: (string, string, Service list, string) event)
       = Continue ([ex_foo], [ex_foo_entry])
           [LogReceive [ex_foo], Callback (Add ex_foo_entry), Callback (Rmv ex_bar)]
   \<and> distinct (map entry_key [ex_foo_entry])
   \<and> set (map entry_key (added (callbacks
        [LogReceive [ex_foo] :: (string, string, Service list, string) effect,
         Callback (Add ex_foo_entry), Callback (Rmv ex_bar)])))
       \<inter> set (map entry_key [ex_bar]) = {}"
proof -
  note d = ex_bar_distinct
  note s = ex_round_foo
  note c = announced_set_dedup [THEN conjunct2, THEN conjunct1, rule_format, OF d s]
  from d s c show ?thesis by (elim conjE) (intro conjI)
qed

subsection \<open>An announced entry whose record is still there\<close>

text \<open>
  C10.  In a session, let \<open>e\<close> be an announced entry and let the snapshot after an inbound
  message hold a record of the browsed service with the instance name of \<open>e\<close> and
  addresses on the interface of \<open>e\<close>, whatever its host, port, text and addresses are.
  Then the round keeps \<open>e\<close>: the updated set has exactly one entry for that pair, \<open>e\<close>
  itself as it was built, and no added and no removed entry has that pair.
\<close>

theorem announced_entry_kept:
  assumes run: "lookupType_loop K service (cache0, []) evs = (None, (cache, es), fs)"
    and e: "e \<in> set es"
    and srv: "srv \<in> set (Services K (UpdateFrom K cache req))"
    and match: "srvServiceName srv = service"
    and name: "srvName srv = Name e"
    and iface: "IfaceName e \<in> fst ` set (ifaceIPs srv)"
    and round: "select_round K service (cache, es) (Inbound req) = Continue (cache', es') fs'"
  shows "e \<in> set es'
    \<and> filter (\<lambda>x. entry_key x = entry_key e) es' = [e]
    \<and> entry_key e \<notin> set (map entry_key (added (callbacks fs')))
    \<and> entry_key e \<notin> set (map entry_key (removed (callbacks fs')))"
proof -
  let ?snap = "Services K (UpdateFrom K cache req)"
  let ?new = "new_entries service ?snap es"
  from run have es: "es = announced (lookupType_loop K service (cache0, []) evs)"
    by simp
  have dist: "distinct (map entry_key es)"
    unfolding es by (rule loop_distinct) simp
  have "\<forall>x\<in>set es. entry_service x = service"
    unfolding es by (rule loop_service) simp
  with e have "entry_service e = service" by blast
  with match name have "ServiceInstanceName e = srvServiceInstanceName srv"
    by (simp add: instance_name_split srv_instance_name_split)
  with srv have found: "found_srv ?snap e"
    unfolding found_srv_iff by (rule rev_image_eqI)
  from round have es': "es' = fst (reconcile service ?snap es)"
    and cb: "callbacks fs' = snd (reconcile service ?snap es)"
    by (auto split: prod.splits)
  have a: "added (callbacks fs') = ?new"
    and r: "removed (callbacks fs') = filter (\<lambda>x. \<not> found_srv ?snap x) es"
    unfolding cb by (simp_all only: reconcile_eq snd_conv added_append removed_append)
  from e found have 1: "e \<in> set es'"
    by (simp add: es' reconcile_eq)
  have "distinct (map entry_key es')"
    unfolding es' by (rule reconcile_distinct [OF dist])
  with 1 have 2: "filter (\<lambda>x. entry_key x = entry_key e) es' = [e]"
    by (rule filter_key_single [rotated])
  from e have 3: "entry_key e \<notin> set (map entry_key (added (callbacks fs')))"
    by (simp add: a new_entries_keys)
  have 4: "entry_key e \<notin> set (map entry_key (removed (callbacks fs')))"
  proof
    assume "entry_key e \<in> set (map entry_key (removed (callbacks fs')))"
    then obtain x where x: "x \<in> set es" "\<not> found_srv ?snap x" "entry_key x = entry_key e"
      by (auto simp: r)
    from dist have "inj_on entry_key (set es)" by (simp add: distinct_map)
    with x e have "x = e" by (auto dest: inj_onD)
    with x found show False by simp
  qed
  from 1 2 3 4 show ?thesis by blast
qed

theorem announced_entry_kept_witness:
  "lookupType_loop ex_K ''_http._tcp.local.'' ([], [])
       [Inbound [ex_foo] :: (string, string, Service list, string) event]
     = (None, ([ex_foo], [ex_foo_entry]), [LogReceive [ex_foo], Callback (Add ex_foo_entry)])
   \<and> ex_foo_entry \<in> set [ex_foo_entry]
   \<and> ex_foo_moved \<in> set (Services ex_K (UpdateFrom ex_K [ex_foo] [ex_foo_moved]))
   \<and> srvServiceName ex_foo_moved = ''_http._tcp.local.''
   \<and> srvName ex_foo_moved = Name ex_foo_entry
   \<and> IfaceName ex_foo_entry \<in> fst ` set (ifaceIPs ex_foo_moved)
   \<and> srvHost ex_foo_moved \<noteq> Host ex_foo_entry
   \<and> select_round ex_K ''_http._tcp.local.'' ([ex_foo], [ex_foo_entry])
         (Inbound [ex_foo_moved] :: (string, string, Service list, string) event)
       = Continue ([ex_foo_moved], [ex_foo_entry]) [LogReceive [ex_foo_moved]]
   \<and> filter (\<lambda>x. entry_key x = entry_key ex_foo_entry) [ex_foo_entry] = [ex_foo_entry]
   \<and> entry_key ex_foo_entry \<notin> set (map entry_key (added (callbacks
        [LogReceive [ex_foo_moved] :: (string, string, Service list, string) effect])))"
proof -
  note run = ex_loop_first
  have e: "ex_foo_entry \<in> set [ex_foo_entry]" by simp
  have srv: "ex_foo_moved \<in> set (Services ex_K (UpdateFrom ex_K [ex_foo] [ex_foo_moved]))"
    by (simp add: ex_K_sel)
  note match = ex_foo_moved_name(1)
  have name: "srvName ex_foo_moved = Name ex_foo_entry"
    by (simp add: ex_foo_moved_name ex_foo_entry_key)
  have iface: "IfaceName ex_foo_entry \<in> fst ` set (ifaceIPs ex_foo_moved)"
    by (simp add: ex_foo_moved_name ex_foo_entry_key)
  note round = ex_round_moved
  note c = announced_entry_kept [OF run e srv match name iface round]
  note c2 = c [THEN conjunct2, THEN conjunct1]
  note c3 = c [THEN conjunct2, THEN conjunct2, THEN conjunct1]
  from run e srv match name iface ex_moved_differs(1) round c2 c3 show ?thesis
    by (intro conjI)
qed

subsection \<open>Cancellation\<close>

text \<open>
  C6.  The loop returns on the first \<^verbatim>\<open>ctx.Done()\<close> that the \<^verbatim>\<open>select\<close> takes, with the value
  of \<^verbatim>\<open>ctx.Err()\<close> as it is, whatever events follow; without one it does not return.
\<close>

theorem cancellation_returns_cause:
  assumes "\<not> list_ex is_Done evs"
  shows "fst (lookupType_loop K service st (evs @ Done err # rest)) = Some err
    \<and> fst (lookupType_loop K service st evs) = None"
  using assms
proof (induction evs arbitrary: st)
  case Nil
  obtain cache es where "st = (cache, es)" by (cases st)
  then show ?case by simp
next
  case (Cons ev evs)
  obtain cache es where st: "st = (cache, es)" by (cases st)
  from Cons.prems have nd: "\<not> is_Done ev" and rest: "\<not> list_ex is_Done evs"
    by simp_all
  from nd obtain st' eff where step: "select_round K service st ev = Continue st' eff"
    unfolding st by (cases ev) (auto simp: split_beta)
  from Cons.IH [OF rest, of st'] step show ?case
    by (simp add: split_beta)
qed

theorem cancellation_returns_cause_witness:
  "\<not> list_ex is_Done [Inbound [ex_foo] :: (string, string, Service list, string) event]
   \<and> fst (lookupType_loop ex_K ''_http._tcp.local.'' ([], [])
        ([Inbound [ex_foo] :: (string, string, Service list, string) event]
          @ Done ''context deadline exceeded'' # [Inbound [ex_foo_moved]]))
       = Some ''context deadline exceeded''
   \<and> fst (lookupType_loop ex_K ''_http._tcp.local.'' ([], [])
        [Inbound [ex_foo] :: (string, string, Service list, string) event]) = None"
proof -
  note h = ex_not_done
  note c = cancellation_returns_cause [OF h, of ex_K "''_http._tcp.local.''" "([], [])"
      "''context deadline exceeded''" "[Inbound [ex_foo_moved]]"]
  from h c show ?thesis by (elim conjE) (intro conjI)
qed

subsection \<open>A failed send\<close>

text \<open>
  C7.  A round whose \<^verbatim>\<open>conn.SendQuery\<close> fails with \<open>err\<close> logs the error, leaves the cache
  and the announced set as they were and continues.  Wherever such a round stands in a
  session, the loop returns or goes on waiting, ends in the state and fires the callbacks
  exactly as it does in the session without that round.
\<close>

theorem failed_send_absorbed:
  "select_round K service (cache, es) (Trigger q now (Some err))
     = Continue (cache, es)
         [LogSend q,
          SendQuery (q\<lparr>msg := (msg q)\<lparr>Answer :=
            known_answers (PTR K) service now (Services K cache) []\<rparr>\<rparr>),
          LogSendQueryErr err]
   \<and> fst (lookupType_loop K service st (evs @ Trigger q now (Some err) # evs'))
       = fst (lookupType_loop K service st (evs @ evs'))
   \<and> fst (snd (lookupType_loop K service st (evs @ Trigger q now (Some err) # evs')))
       = fst (snd (lookupType_loop K service st (evs @ evs')))
   \<and> callbacks (snd (snd (lookupType_loop K service st (evs @ Trigger q now (Some err) # evs'))))
       = callbacks (snd (snd (lookupType_loop K service st (evs @ evs'))))"
proof -
  obtain r c' es' fs where run: "lookupType_loop K service st evs = (r, (c', es'), fs)"
    by (metis prod.exhaust)
  obtain r' st'' fs' where rest: "lookupType_loop K service (c', es') evs' = (r', st'', fs')"
    by (metis prod.exhaust)
  have 1: "select_round K service (cache, es) (Trigger q now (Some err))
     = Continue (cache, es)
         [LogSend q,
          SendQuery (q\<lparr>msg := (msg q)\<lparr>Answer :=
            known_answers (PTR K) service now (Services K cache) []\<rparr>\<rparr>),
          LogSendQueryErr err]"
    by simp
  have 2: "fst (lookupType_loop K service st (evs @ Trigger q now (Some err) # evs'))
       = fst (lookupType_loop K service st (evs @ evs'))"
    by (cases r) (simp_all add: loop_append run rest loop_failed_send)
  have 3: "fst (snd (lookupType_loop K service st (evs @ Trigger q now (Some err) # evs')))
       = fst (snd (lookupType_loop K service st (evs @ evs')))"
    by (cases r) (simp_all add: loop_append run rest loop_failed_send)
  have 4: "callbacks (snd (snd (lookupType_loop K service st (evs @ Trigger q now (Some err) # evs'))))
       = callbacks (snd (snd (lookupType_loop K service st (evs @ evs'))))"
    by (cases r) (simp_all add: loop_append run rest loop_failed_send callbacks_append)
  from 1 2 3 4 show ?thesis by (intro conjI)
qed

section \<open>Properties of the known-answer filter\<close>

lemma known_shift:
  "map snd (filter (fresh service now) (enumerate (Suc n) snap))
     = map snd (filter (fresh service (\<lambda>i. now (Suc i))) (enumerate n snap))"
proof -
  have "fresh service now \<circ> apfst Suc = fresh service (\<lambda>i. now (Suc i))"
    by (rule ext) (simp add: fresh_def)
  then show ?thesis
    by (simp add: enumerate_Suc_eq filter_map comp_def [of snd])
qed

lemma known_Cons:
  "known service now (srv # rest) =
     (if fresh service now (0, srv) then [srv] else []) @ known service (\<lambda>i. now (Suc i)) rest"
  by (simp add: known_def known_shift)

lemma known_answers_eq:
  "known_answers ptr service now snap answer = answer @ map ptr (known service now snap)"
proof (induction snap arbitrary: now answer)
  case Nil
  then show ?case by (simp add: known_def)
next
  case (Cons srv rest)
  then show ?case by (simp add: known_Cons fresh_def)
qed

lemma half_ttl_exact:
  assumes "0 \<le> ttl" and "ttl < 2 ^ 63"
  shows "quot ttl 2 < Until t now \<longleftrightarrow> ttl < 2 * (t - now)"
proof -
  have q: "quot ttl 2 = ttl div 2"
    using assms by (simp add: quot_def)
  have b: "ttl div 2 < 2 ^ 63 - 1" "- (2 ^ 63) \<le> ttl div 2"
    using assms by simp_all
  show ?thesis
    unfolding q Until_def using assms b by (auto simp: max_def min_def)
qed

lemma ex_foo_ttl: "TTL ex_foo = 100 * Second" "expiration ex_foo = 160 * Second"
  "0 \<le> TTL ex_foo \<and> TTL ex_foo < 2 ^ 63"
  by (simp_all add: ex_foo_def Second_def)

text \<open>
  C3.  The query that a round hands to \<^verbatim>\<open>conn.SendQuery\<close> has in its answer section the
  records of exactly those services of the cache, in the order of the snapshot, whose
  service name is the browsed one and for which \<^verbatim>\<open>time.Until(srv.expiration)\<close>, at the
  reading of the clock for that record, is greater than \<^verbatim>\<open>srv.TTL/2\<close>; this is so whether
  the send succeeds or fails.  For a time-to-live that is not negative the test is the
  same as the remaining lifetime being more than half the time-to-live.  A record with a
  time-to-live of 100 s is included with 60 s remaining and left out with 40 s remaining.
\<close>

theorem known_answer_threshold:
  "select_round K service (cache, es) (Trigger q now r)
     = Continue (cache, es)
         ([LogSend q,
           SendQuery (q\<lparr>msg := (msg q)\<lparr>Answer :=
             map (PTR K) (map snd (filter
               (\<lambda>p. srvServiceName (snd p) = service
                      \<and> quot (TTL (snd p)) 2 < Until (expiration (snd p)) (now (fst p)))
               (enumerate 0 (Services K cache))))\<rparr>\<rparr>)]
          @ log_send_error r)
   \<and> (0 \<le> TTL srv \<and> TTL srv < 2 ^ 63 \<longrightarrow>
        (quot (TTL srv) 2 < Until (expiration srv) t \<longleftrightarrow> TTL srv < 2 * (expiration srv - t)))"
proof -
  have "fresh service now = (\<lambda>p. srvServiceName (snd p) = service
      \<and> quot (TTL (snd p)) 2 < Until (expiration (snd p)) (now (fst p)))"
    by (rule ext) (simp add: fresh_def)
  then have "known_answers (PTR K) service now (Services K cache) []
      = map (PTR K) (map snd (filter
               (\<lambda>p. srvServiceName (snd p) = service
                      \<and> quot (TTL (snd p)) 2 < Until (expiration (snd p)) (now (fst p)))
               (enumerate 0 (Services K cache))))"
    by (simp add: known_answers_eq known_def)
  then show ?thesis
    by (simp add: half_ttl_exact)
qed

theorem known_answer_threshold_witness:
  "(0 \<le> TTL ex_foo \<and> TTL ex_foo < 2 ^ 63)
   \<and> TTL ex_foo = 100 * Second
   \<and> expiration ex_foo - 100 * Second = 60 * Second
   \<and> select_round ex_K ''_http._tcp.local.'' ([ex_foo], [])
         (Trigger ex_q (\<lambda>i. 100 * Second) None :: (string, string, Service list, string) event)
       = Continue ([ex_foo], [])
           [LogSend ex_q,
            SendQuery (ex_q\<lparr>msg := (msg ex_q)\<lparr>Answer := [srvServiceInstanceName ex_foo]\<rparr>\<rparr>)]
   \<and> expiration ex_foo - 120 * Second = 40 * Second
   \<and> select_round ex_K ''_http._tcp.local.'' ([ex_foo], [])
         (Trigger ex_q (\<lambda>i. 120 * Second) None :: (string, string, Service list, string) event)
       = Continue ([ex_foo], [])
           [LogSend ex_q, SendQuery (ex_q\<lparr>msg := (msg ex_q)\<lparr>Answer := []\<rparr>\<rparr>)]"
proof -
  note r = ex_foo_ttl(3)
  note t = known_answer_threshold [of ex_K "''_http._tcp.local.''" "[ex_foo]" "[]" ex_q _
      "None :: string option" ex_foo]
  have a: "quot (TTL ex_foo) 2 < Until (expiration ex_foo) (100 * Second)"
    using t [of "\<lambda>i. 100 * Second" "100 * Second", THEN conjunct2, rule_format, OF r]
    by (simp add: ex_foo_ttl Second_def)
  have b: "\<not> quot (TTL ex_foo) 2 < Until (expiration ex_foo) (120 * Second)"
    using t [of "\<lambda>i. 120 * Second" "120 * Second", THEN conjunct2, rule_format, OF r]
    by (simp add: ex_foo_ttl Second_def)
  have 1: "select_round ex_K ''_http._tcp.local.'' ([ex_foo], [])
         (Trigger ex_q (\<lambda>i. 100 * Second) None :: (string, string, Service list, string) event)
       = Continue ([ex_foo], [])
           [LogSend ex_q,
            SendQuery (ex_q\<lparr>msg := (msg ex_q)\<lparr>Answer := [srvServiceInstanceName ex_foo]\<rparr>\<rparr>)]"
    unfolding t [of "\<lambda>i. 100 * Second" "100 * Second", THEN conjunct1]
    using a by (simp add: ex_K_sel ex_foo_name)
  have 2: "select_round ex_K ''_http._tcp.local.'' ([ex_foo], [])
         (Trigger ex_q (\<lambda>i. 120 * Second) None :: (string, string, Service list, string) event)
       = Continue ([ex_foo], [])
           [LogSend ex_q, SendQuery (ex_q\<lparr>msg := (msg ex_q)\<lparr>Answer := []\<rparr>\<rparr>)]"
    unfolding t [of "\<lambda>i. 120 * Second" "120 * Second", THEN conjunct1]
    using b by (simp add: ex_K_sel ex_foo_name)
  have 3: "expiration ex_foo - 100 * Second = 60 * Second"
    "expiration ex_foo - 120 * Second = 40 * Second"
    by (simp_all add: ex_foo_ttl)
  from r ex_foo_ttl(1) 3(1) 1 3(2) 2 show ?thesis by (elim conjE) (intro conjI)
qed

section \<open>Properties of the query scheduler\<close>

lemma wrap64_id: "- (2 ^ 63) \<le> x \<Longrightarrow> x < 2 ^ 63 \<Longrightarrow> wrap64 x = x"
  unfolding wrap64_def by (rule signed_take_bit_int_eq_self) simp_all

lemma jitter_eq: "0 \<le> r \<Longrightarrow> r < 100 \<Longrightarrow> jitter r = (r + 20) * Millisecond"
  by (simp add: jitter_def wrap64_id Millisecond_def)

lemma jitter_image: "jitter ` Intn 100 = (\<lambda>k. k * Millisecond) ` {20..119}"
proof (rule set_eqI, rule iffI)
  fix d assume "d \<in> jitter ` Intn 100"
  then obtain r where r: "0 \<le> r" "r < 100" and d: "d = jitter r"
    by (auto simp: Intn_def)
  from r have "r + 20 \<in> {20..119}" by simp
  moreover from r d have "d = (r + 20) * Millisecond" by (simp add: jitter_eq)
  ultimately show "d \<in> (\<lambda>k. k * Millisecond) ` {20..119}" by (rule rev_image_eqI)
next
  fix d assume "d \<in> (\<lambda>k. k * Millisecond) ` {20..119}"
  then obtain k where k: "20 \<le> k" "k \<le> 119" and d: "d = k * Millisecond"
    by auto
  from k have "k - 20 \<in> Intn 100" by (simp add: Intn_def)
  moreover from k d have "d = jitter (k - 20)" by (simp add: jitter_eq)
  ultimately show "d \<in> jitter ` Intn 100" by (rule rev_image_eqI)
qed

subsection \<open>The jitter\<close>

text \<open>
  C9, as amended.  The jitter before the first tick is a whole number of milliseconds from
  20 to 119, and each of these hundred values is the jitter for some result of
  \<^verbatim>\<open>rand.Intn(100)\<close>; so it lies between 20 ms and 120 ms.
\<close>

theorem jitter_range:
  "jitter ` Intn 100 = (\<lambda>k. k * Millisecond) ` {20..119}
   \<and> jitter ` Intn 100 \<subseteq> {20 * Millisecond..120 * Millisecond}"
proof
  show "jitter ` Intn 100 = (\<lambda>k. k * Millisecond) ` {20..119}"
    by (rule jitter_image)
  show "jitter ` Intn 100 \<subseteq> {20 * Millisecond..120 * Millisecond}"
    unfolding jitter_image by (auto simp: Millisecond_def)
qed

text \<open>C9, as stated, fails: no result of \<^verbatim>\<open>rand.Intn(100)\<close> gives a jitter of 120 ms.\<close>

theorem jitter_120ms_counterexample: "120 * Millisecond \<notin> jitter ` Intn 100"
  unfolding jitter_image by (auto simp: Millisecond_def)

subsection \<open>Runs of the scheduler\<close>

lemma sched_run_append:
  "sched_run c m s (ws @ ws') =
     (case sched_run c m s ws of
        (s', qs) \<Rightarrow> (case sched_run c m s' ws' of (s'', qs') \<Rightarrow> (s'', qs @ qs')))"
  by (induction ws arbitrary: s) (simp_all add: split_beta)

lemma sched_run_tick:
  "sched_run c m (query xs ls) (tick xs) = (after_query ls, map (mk_query m) xs)"
proof (induction xs)
  case Nil
  then show ?case by (simp add: tick_def)
next
  case (Cons x xs)
  then show ?case by (simp add: tick_def)
qed

lemma sched_run_Exited: "sched_run c m Exited ws = (Exited, [])"
  by (induction ws) simp_all

lemma sending_prefix:
  "prefix (snd (sched_run False m (Sending xs None) ws)) (map (mk_query m) xs)"
proof (induction ws arbitrary: xs)
  case Nil
  then show ?case by simp
next
  case (Cons w ws)
  show ?case
  proof (cases "w = Received \<and> xs \<noteq> []")
    case False
    then have "sched_step False m (Sending xs None) w = (Sending xs None, [])"
      by (cases w; cases xs) simp_all
    with Cons.IH [of xs] show ?thesis by (simp add: split_beta)
  next
    case True
    then obtain i rest where xs: "xs = i # rest" by (cases xs) auto
    show ?thesis
    proof (cases rest)
      case Nil
      with True xs show ?thesis
        by (simp add: split_beta sched_run_Exited)
    next
      case (Cons j rest')
      with True xs Cons.IH [of rest] show ?thesis
        by (simp add: split_beta)
    qed
  qed
qed

lemma sleeping_prefix:
  "prefix (snd (sched_run False m Sleeping ws)) (map (mk_query m) (enumerated ws))"
proof (induction ws)
  case Nil
  then show ?case by simp
next
  case (Cons w ws)
  show ?case
  proof (cases w)
    case (SleepOver mifs)
    show ?thesis
    proof (cases mifs)
      case Nil
      with SleepOver show ?thesis by (simp add: split_beta sched_run_Exited)
    next
      case (Cons i rest)
      with SleepOver sending_prefix [of m mifs ws] show ?thesis
        by (simp add: split_beta)
    qed
  next
    case Received
    with Cons.IH show ?thesis by (simp add: split_beta)
  next
    case (TimerFired mifs)
    with Cons.IH show ?thesis by (simp add: split_beta)
  next
    case CtxDone
    with Cons.IH show ?thesis by (simp add: split_beta)
  qed
qed

subsection \<open>Single-shot mode\<close>

lemma received_Cons:
  "received (w # ws) = (if w = Received then Suc (received ws) else received ws)"
  by (simp add: received_def)

lemma single_shot_served:
  "sched_run False m (query xs None) ws
     = (query (drop (received ws) xs) None, take (received ws) (map (mk_query m) xs))"
proof (induction ws arbitrary: xs)
  case Nil
  then show ?case by (simp add: received_def)
next
  case (Cons w ws)
  show ?case
  proof (cases xs)
    case Nil
    then show ?thesis by (simp add: sched_run_Exited)
  next
    case xs: (Cons i rest)
    show ?thesis
    proof (cases "w = Received")
      case True
      with xs Cons.IH [of rest] show ?thesis
        by (simp add: received_Cons)
    next
      case False
      then have "sched_step False m (Sending (i # rest) None) w = (query (i # rest) None, [])"
        by (cases w) simp_all
      with False xs Cons.IH [of xs] show ?thesis
        by (simp add: received_Cons)
    qed
  qed
qed

text \<open>
  C8, as amended.  With \<^verbatim>\<open>continuous = false\<close>, whatever wakes the goroutine and in whatever
  order, the queries it hands over are an initial part of the list with one query for
  each of the multicast interfaces found when the sleep ended: after the sleep, as many
  of them as the orchestrator has received, the goroutine then being in \<^verbatim>\<open>query()\<close> with
  the interfaces that are left, or returned when none is left.  When the orchestrator
  receives each query, they are that whole list and the goroutine has returned, whatever
  comes after; and once returned it hands over nothing.
\<close>

theorem single_shot_one_tick:
  "prefix (snd (sched_run False m Sleeping ws)) (map (mk_query m) (enumerated ws))
   \<and> sched_run False m Sleeping (SleepOver mifs # ws)
       = (query (drop (received ws) mifs) None, take (received ws) (map (mk_query m) mifs))
   \<and> sched_run False m Sleeping (SleepOver mifs # tick mifs @ ws)
       = (Exited, map (mk_query m) mifs)
   \<and> sched_run False m Exited ws = (Exited, [])"
proof (intro conjI)
  show "prefix (snd (sched_run False m Sleeping ws)) (map (mk_query m) (enumerated ws))"
    by (rule sleeping_prefix)
  show "sched_run False m Sleeping (SleepOver mifs # ws)
      = (query (drop (received ws) mifs) None, take (received ws) (map (mk_query m) mifs))"
    by (simp add: single_shot_served)
  show "sched_run False m Sleeping (SleepOver mifs # tick mifs @ ws)
      = (Exited, map (mk_query m) mifs)"
    by (simp add: sched_run_append sched_run_tick sched_run_Exited)
  show "sched_run False m Exited ws = (Exited, [])"
    by (rule sched_run_Exited)
qed

text \<open>
  C8, as stated, fails: cancelled during the jitter sleep, with one multicast interface
  and no receiver left, the goroutine has handed over no query and has not returned.
\<close>

theorem single_shot_cancelled_counterexample:
  "sched_run False (question_msg ''_http._tcp.local.'' :: string Msg) Sleeping
       [CtxDone, SleepOver [''en0''], CtxDone, CtxDone]
     = (Sending [''en0''] None, [])"
  by simp

subsection \<open>Exponential backoff\<close>

lemma counter_after_small: "n \<le> 12 \<Longrightarrow> counter_after n = int n"
  by (induction n) (simp_all add: wrap64_id)

lemma pow2_le_4096:
  assumes "n \<le> 12"
  shows "(2::int) ^ n \<le> 4096"
proof -
  from assms have "(2::int) ^ n \<le> 2 ^ 12" by (intro power_increasing) simp_all
  then show ?thesis by simp
qed

lemma pow2_le_2048:
  assumes "n \<le> 11"
  shows "(2::int) ^ n \<le> 2048"
proof -
  from assms have "(2::int) ^ n \<le> 2 ^ 11" by (intro power_increasing) simp_all
  then show ?thesis by simp
qed

lemma shifted_second:
  assumes "n \<le> 12"
  shows "wrap64 (shl64 1 n * Second) = 2 ^ n * Second"
proof -
  have p: "(0::int) < 2 ^ n" by simp
  note q = pow2_le_4096 [OF assms]
  have lo: "- (2 ^ 63) \<le> (2::int) ^ n"
    by (rule order_trans [of _ 0]) simp_all
  from q have hi: "(2::int) ^ n < 2 ^ 63" by simp
  from lo hi have "wrap64 (2 ^ n) = 2 ^ n"
    by (rule wrap64_id)
  then have "shl64 1 n = 2 ^ n"
    by (simp add: shl64_def)
  moreover have "wrap64 (2 ^ n * Second) = 2 ^ n * Second"
  proof (rule wrap64_id)
    have "(0::int) \<le> 2 ^ n * Second" by (simp add: Second_def)
    then show "- (2 ^ 63) \<le> 2 ^ n * Second" by (rule order_trans [rotated]) simp
    from q have "2 ^ n * Second \<le> 4096 * Second" by (simp add: Second_def)
    then show "2 ^ n * Second < 2 ^ 63" by (simp add: Second_def)
  qed
  ultimately show ?thesis by simp
qed

lemma backoff_below:
  assumes "n \<le> 11" and "interval < Hour"
  shows "backoff (int n) interval = Some (2 ^ n * Second)"
proof -
  from assms have "wrap64 (shl64 1 n * Second) = 2 ^ n * Second"
    by (simp add: shifted_second)
  moreover from pow2_le_2048 [OF assms(1)] have "2 ^ n * Second < Hour" "\<not> 2 ^ n * Second < 0"
    by (simp_all add: Hour_def Second_def)
  ultimately show ?thesis
    using assms(2) by (simp add: backoff_def Let_def)
qed

lemma backoff_at_12:
  assumes "interval < Hour"
  shows "backoff 12 interval = Some Hour"
proof -
  have "wrap64 (shl64 1 12 * Second) = 2 ^ 12 * Second"
    by (simp add: shifted_second)
  moreover have "Hour \<le> 2 ^ 12 * Second"
    by (simp add: Hour_def Second_def)
  ultimately show ?thesis
    using assms by (simp add: backoff_def Let_def)
qed

lemma backoff_capped: "backoff counter Hour = Some Hour"
  by (simp add: backoff_def)

lemma interval_after_below: "n \<le> 12 \<Longrightarrow> interval_after n < Hour"
proof (cases n)
  case 0
  then show ?thesis by (simp add: Hour_def Second_def)
next
  case (Suc j)
  assume "n \<le> 12"
  with Suc have "j \<le> 11" by simp
  from pow2_le_2048 [OF this] Suc show ?thesis
    by (simp add: Hour_def Second_def min_def)
qed

lemma interval_after_capped: "13 \<le> n \<Longrightarrow> interval_after n = Hour"
proof (cases n)
  case 0
  assume "13 \<le> n"
  with 0 show ?thesis by simp
next
  case (Suc j)
  assume "13 \<le> n"
  with Suc have "12 \<le> j" by simp
  then have "(2::int) ^ 12 \<le> 2 ^ j" by (intro power_increasing) simp_all
  with Suc show ?thesis by (simp add: Hour_def min_def)
qed

lemma backoff_next:
  "backoff (counter_after n) (interval_after n) = Some (interval_after (Suc n))"
proof -
  consider "n \<le> 11" | "n = 12" | "13 \<le> n" by linarith
  then show ?thesis
  proof cases
    case 1
    then have "backoff (int n) (interval_after n) = Some (2 ^ n * Second)"
      by (intro backoff_below interval_after_below) simp_all
    moreover from pow2_le_2048 [OF 1] have "min (2 ^ n) 3600 = (2::int) ^ n" by simp
    ultimately show ?thesis using 1 by (simp add: counter_after_small)
  next
    case 2
    have a: "backoff 12 (interval_after 12) = Some Hour"
      by (intro backoff_at_12 interval_after_below) simp
    have b: "interval_after (Suc 12) = Hour"
      by (simp only: interval_after.simps) (simp add: Hour_def)
    have c: "counter_after 12 = 12"
      using counter_after_small [of 12] by simp
    show ?thesis unfolding 2 c b by (rule a)
  next
    case 3
    then have "interval_after n = Hour" "interval_after (Suc n) = Hour"
      by (simp_all only: interval_after_capped le_SucI)
    then show ?thesis by (simp only: backoff_capped)
  qed
qed

lemma continuous_rounds:
  "fst (sched_run True m (query mifs (Some (counter_after n, interval_after n)))
          (tick mifs @ rounds ms))
     = Waiting (counter_after (n + length ms)) (interval_after (Suc (n + length ms)))"
proof (induction ms arbitrary: n mifs)
  case Nil
  show ?case
    by (simp add: sched_run_tick backoff_next del: interval_after.simps)
next
  case (Cons mifs' ms)
  have "fst (sched_run True m (query mifs (Some (counter_after n, interval_after n)))
          (tick mifs @ rounds (mifs' # ms)))
      = fst (sched_run True m (query mifs' (Some (counter_after (Suc n), interval_after (Suc n))))
          (tick mifs' @ rounds ms))"
    by (simp add: sched_run_append sched_run_tick backoff_next split_beta
        del: interval_after.simps)
  with Cons.IH [of mifs' "Suc n"] show ?case by simp
qed

text \<open>
  C4.  In continuous mode, when every tick is served and every wait ends with its timer,
  the goroutine waits \<open>min (2 ^ (k - 1)) 3600\<close> seconds after tick \<open>k\<close>, for every
  \<open>k \<ge> 1\<close> and whatever interfaces each tick finds: 1 s, 2 s, 4 s, ... and then 3600 s
  for ever; this delay is positive and at most 3600 s however large \<open>k\<close> is.
\<close>

theorem backoff_sequence:
  assumes "k = Suc (length ms)"
  shows "delay (fst (sched_run True m Sleeping (SleepOver mifs # tick mifs @ rounds ms)))
           = Some (min (2 ^ (k - 1)) 3600 * Second)
    \<and> 0 < min (2 ^ (k - 1)) 3600 * Second
    \<and> min (2 ^ (k - 1)) 3600 * Second \<le> 3600 * Second"
proof -
  let ?j = "length ms"
  have "fst (sched_run True m Sleeping (SleepOver mifs # tick mifs @ rounds ms))
      = fst (sched_run True m (query mifs (Some (counter_after 0, interval_after 0)))
          (tick mifs @ rounds ms))"
    by (simp add: split_beta)
  also have "\<dots> = Waiting (counter_after ?j) (interval_after (Suc ?j))"
    using continuous_rounds [of m mifs 0 ms] by simp
  finally have "delay (fst (sched_run True m Sleeping (SleepOver mifs # tick mifs @ rounds ms)))
      = Some (min (2 ^ ?j) 3600 * Second)"
    by simp
  moreover have "0 < min ((2::int) ^ ?j) 3600 * Second"
    by (simp add: Second_def min_def)
  moreover have "min ((2::int) ^ ?j) 3600 * Second \<le> 3600 * Second"
    by (simp add: Second_def)
  ultimately show ?thesis by (simp add: assms)
qed

theorem backoff_sequence_witness:
  "(13::nat) = Suc (length (replicate 12 [''en0'']))
   \<and> delay (fst (sched_run True (question_msg ''_http._tcp.local.'' :: string Msg) Sleeping
        (SleepOver [''en0''] # tick [''en0''] @ rounds (replicate 12 [''en0'']))))
      = Some (3600 * Second)"
proof -
  have h: "(13::nat) = Suc (length (replicate 12 [''en0'']))" by simp
  note c = backoff_sequence [OF h, of "question_msg ''_http._tcp.local.'' :: string Msg" "[''en0'']",
      THEN conjunct1]
  have "min ((2::int) ^ (13 - 1)) 3600 = 3600" by simp
  with c have "delay (fst (sched_run True (question_msg ''_http._tcp.local.'' :: string Msg) Sleeping
        (SleepOver [''en0''] # tick [''en0''] @ rounds (replicate 12 [''en0'']))))
      = Some (3600 * Second)"
    by (simp only:)
  with h show ?thesis by (rule conjI)
qed

subsection \<open>Cancellation of the scheduler\<close>

text \<open>
  C5.  The scheduler at work after \<^verbatim>\<open>ctx.Done()\<close>, for one multicast interface.  Cancelled
  during the jitter sleep in single-shot mode, it still hands its query over when the
  \<^verbatim>\<open>select\<close> of the orchestrator takes it.  Cancelled during the jitter sleep in continuous
  mode, with no receiver left, it stays blocked in \<^verbatim>\<open>qs <- q\<close> and does not return.
\<close>

theorem scheduler_after_cancellation:
  "sched_run False (question_msg ''_http._tcp.local.'' :: string Msg) Sleeping
       [CtxDone, SleepOver [''en0''], CtxDone, Received]
     = (Exited, [mk_query (question_msg ''_http._tcp.local.'') ''en0''])
   \<and> sched_run True (question_msg ''_http._tcp.local.'' :: string Msg) Sleeping
       [CtxDone, SleepOver [''en0''], CtxDone, TimerFired [''en0''], CtxDone]
     = (Sending [''en0''] (Some (0, 0)), [])"
  by simp

end
